theory Spec2Isabelle
  imports Main "HOL-Library.Sublist"
begin

section \<open>Strings and paths\<close>

text \<open>
  Go strings are byte sequences, modelled as \<open>string\<close>. The path separator is the
  slash. \<open>Ext\<close> and \<open>Base\<close> follow \<^verbatim>\<open>path/filepath\<close>: both scan the path from its
  end.
\<close>

definition isSep :: "char \<Rightarrow> bool" where
  "isSep c \<longleftrightarrow> c = CHR ''/''"

text \<open>
  \<^verbatim>\<open>for i := len(path) - 1; i >= 0 && !os.IsPathSeparator(path[i]); i-- {
       if path[i] == '.' { return path[i:] } }
     return ""\<close>
  The first argument is the part of the path not yet scanned, reversed; the second is
  the part already scanned.
\<close>

fun ext_scan :: "string \<Rightarrow> string \<Rightarrow> string" where
  "ext_scan [] rest = []"
| "ext_scan (c # cs) rest =
     (if isSep c then []
      else if c = CHR ''.'' then c # rest
      else ext_scan cs (c # rest))"

definition Ext :: "string \<Rightarrow> string" where
  "Ext path = ext_scan (rev path) []"

text \<open>\<^verbatim>\<open>strings.HasPrefix(s, prefix)\<close>\<close>

definition HasPrefix :: "string \<Rightarrow> string \<Rightarrow> bool" where
  "HasPrefix s p \<longleftrightarrow> prefix p s"

text \<open>\<^verbatim>\<open>strings.Contains(path, "*")\<close>: the substring sought is the single byte \<open>*\<close>.\<close>

definition isGlobPath :: "string \<Rightarrow> bool" where
  "isGlobPath path \<longleftrightarrow> CHR ''*'' \<in> set path"

section \<open>Errors\<close>

text \<open>
  Go errors as values. \<open>SkipDir\<close> is \<^verbatim>\<open>filepath.SkipDir\<close>, \<open>ErrDetectedChange\<close> is the
  package variable \<^verbatim>\<open>errDetectedChange\<close>; \<open>OSError\<close> stands for any failure reported by
  the operating system or by the glob library, with its message; \<open>Errorf\<close> is an error
  built by \<^verbatim>\<open>fmt.Errorf\<close>, with its formatted message.
\<close>

datatype error = SkipDir | ErrDetectedChange | OSError string | Errorf string

fun errorText :: "error \<Rightarrow> string" where
  "errorText SkipDir = ''skip this directory''"
| "errorText ErrDetectedChange = ''done''"
| "errorText (OSError msg) = msg"
| "errorText (Errorf msg) = msg"

text \<open>\<^verbatim>\<open>fmt.Errorf("couldn't resolve glob path \"%s\": %v", path, err)\<close>\<close>

definition globError :: "string \<Rightarrow> error \<Rightarrow> error" where
  "globError path err =
     Errorf (''couldn't resolve glob path '' @ [CHR 0x22] @ path @ [CHR 0x22] @ '': '' @ errorText err)"

section \<open>Path resolution\<close>

text \<open>
  A Go \<^verbatim>\<open>map[string]bool\<close> is a partial map. \<^verbatim>\<open>range\<close> over a map visits every key
  once, in an order the language leaves open; the order of each loop is therefore an
  input of the model.
\<close>

type_synonym pathmap = "string \<rightharpoonup> bool"

definition ranges_over :: "string list \<Rightarrow> pathmap \<Rightarrow> bool" where
  "ranges_over ks m \<longleftrightarrow> distinct ks \<and> set ks = dom m"

record iteration =
  outer :: "string list"
  inner :: "string \<Rightarrow> string list"
  cleanup :: "string list"

definition fair :: "iteration \<Rightarrow> pathmap \<Rightarrow> bool" where
  "fair it m \<longleftrightarrow>
     ranges_over (outer it) m \<and> (\<forall>p1. ranges_over (inner it p1) m) \<and> ranges_over (cleanup it) m"

text \<open>The inner loop of \<^verbatim>\<open>removeOverlappedPaths\<close>, for one \<open>p1\<close>.\<close>

fun mark_inner :: "string \<Rightarrow> string list \<Rightarrow> pathmap \<Rightarrow> pathmap" where
  "mark_inner p1 [] mapPaths = mapPaths"
| "mark_inner p1 (p2 # ps) mapPaths =
     (if p1 = p2 then mark_inner p1 ps mapPaths
      else if HasPrefix p2 p1 then mark_inner p1 ps (mapPaths(p2 \<mapsto> False))
      else if HasPrefix p1 p2 then mark_inner p1 ps (mapPaths(p1 \<mapsto> False))
      else mark_inner p1 ps mapPaths)"

text \<open>The outer loop: a path already marked \<open>false\<close> is skipped.\<close>

fun mark_outer :: "(string \<Rightarrow> string list) \<Rightarrow> string list \<Rightarrow> pathmap \<Rightarrow> pathmap" where
  "mark_outer inn [] mapPaths = mapPaths"
| "mark_outer inn (p1 # ps) mapPaths =
     (if mapPaths p1 = Some False then mark_outer inn ps mapPaths
      else mark_outer inn ps (mark_inner p1 (inn p1) mapPaths))"

text \<open>
  The cleanup loop: \<^verbatim>\<open>if !mapPaths[p] { delete(mapPaths, p) }\<close>. Reading a missing key
  gives \<open>false\<close>.
\<close>

fun sweep :: "string list \<Rightarrow> pathmap \<Rightarrow> pathmap" where
  "sweep [] mapPaths = mapPaths"
| "sweep (p # ps) mapPaths =
     (if mapPaths p = Some True then sweep ps mapPaths else sweep ps (mapPaths(p := None)))"

definition removeOverlappedPaths :: "iteration \<Rightarrow> pathmap \<Rightarrow> pathmap" where
  "removeOverlappedPaths it mapPaths =
     sweep (cleanup it) (mark_outer (inner it) (outer it) mapPaths)"

text \<open>
  The glob library (\<^verbatim>\<open>zglob.Glob\<close>) reads the file system; it is a parameter of the
  model: a pattern gives the list of its matches or an error.
\<close>

type_synonym glob = "string \<Rightarrow> error + string list"

text \<open>The loop over the matches of one input path.\<close>

fun add_matches :: "bool \<Rightarrow> string \<Rightarrow> pathmap \<Rightarrow> string list \<Rightarrow> pathmap \<Rightarrow> pathmap" where
  "add_matches isGlob path extensions [] result = result"
| "add_matches isGlob path extensions (match # ms) result =
     (if isGlob \<and> extensions (Ext path) = None
      then add_matches isGlob path extensions ms result
      else if result match = None
      then add_matches isGlob path extensions ms (result(match \<mapsto> True))
      else add_matches isGlob path extensions ms result)"

text \<open>The loop over the input paths; a glob failure returns at once.\<close>

fun collect :: "glob \<Rightarrow> pathmap \<Rightarrow> string list \<Rightarrow> pathmap \<Rightarrow> error + pathmap" where
  "collect g extensions [] result = Inr result"
| "collect g extensions (path # ps) result =
     (if isGlobPath path
      then (case g path of
              Inl err \<Rightarrow> Inl (globError path err)
            | Inr matches \<Rightarrow>
                collect g extensions ps (add_matches True path extensions matches result))
      else collect g extensions ps (add_matches False path extensions [path] result))"

definition resolvePaths :: "glob \<Rightarrow> iteration \<Rightarrow> string list \<Rightarrow> pathmap \<Rightarrow> error + pathmap" where
  "resolvePaths g it paths extensions =
     (case collect g extensions paths Map.empty of
        Inl err \<Rightarrow> Inl err
      | Inr result \<Rightarrow> Inr (removeOverlappedPaths it result))"


text \<open>
  \<open>covered D p\<close>: some other member of \<open>D\<close> is a string prefix of \<open>p\<close>. \<open>sound D m\<close>
  is the invariant of the marking loops: the keys are those of \<open>D\<close>, and only covered
  keys carry \<open>false\<close>.
\<close>

definition covered :: "string set \<Rightarrow> string \<Rightarrow> bool" where
  "covered D p \<longleftrightarrow> (\<exists>q\<in>D. strict_prefix q p)"

definition sound :: "string set \<Rightarrow> pathmap \<Rightarrow> bool" where
  "sound D m \<longleftrightarrow> dom m = D \<and> (\<forall>p\<in>D. m p = Some True \<or> (m p = Some False \<and> covered D p))"

section \<open>Construction\<close>

text \<open>
  The channels of the watcher are unbuffered; what is sent on them is recorded in the
  trace of a run (below), so the record keeps the four data fields.
\<close>

record watcher =
  pollInterval :: int
  watchItems :: pathmap
  ignoreItems :: pathmap
  allowedExtensions :: pathmap

text \<open>
  \<^verbatim>\<open>DefaultPoolInterval\<close> and \<^verbatim>\<open>DefaultExtensions\<close> are declared elsewhere in the
  package; they are parameters here.
\<close>

record defaults =
  DefaultPoolInterval :: int
  DefaultExtensions :: "string list"

text \<open>\<^verbatim>\<open>for _, ext := range extensions { allowedExts["."+ext] = true }\<close>\<close>

fun allow :: "string list \<Rightarrow> pathmap \<Rightarrow> pathmap" where
  "allow [] allowedExts = allowedExts"
| "allow (ext # es) allowedExts = allow es (allowedExts(''.'' @ ext \<mapsto> True))"

definition NewWatcher ::
  "defaults \<Rightarrow> glob \<Rightarrow> iteration \<Rightarrow> iteration \<Rightarrow>
   int \<Rightarrow> string list \<Rightarrow> string list \<Rightarrow> string list \<Rightarrow> error + watcher" where
  "NewWatcher d g itw iti pollInterval0 watchItems0 ignoreItems0 extensions0 =
     (let pollInterval1 = (if pollInterval0 = 0 then DefaultPoolInterval d else pollInterval0);
          extensions1 = (if length extensions0 = 0 then DefaultExtensions d else extensions0);
          allowedExts = allow extensions1 Map.empty
      in case resolvePaths g itw watchItems0 allowedExts of
           Inl err \<Rightarrow> Inl err
         | Inr watchPaths \<Rightarrow>
             (case resolvePaths g iti ignoreItems0 allowedExts of
                Inl err \<Rightarrow> Inl err
              | Inr ignorePaths \<Rightarrow>
                  Inr \<lparr>pollInterval = pollInterval1, watchItems = watchPaths,
                       ignoreItems = ignorePaths, allowedExtensions = allowedExts\<rparr>))"

section \<open>Scanning one root\<close>

text \<open>
  What \<^verbatim>\<open>filepath.Walk\<close> presents to its callback: an entry is a file or a directory,
  with the path the callback receives, the modification time of its \<^verbatim>\<open>os.FileInfo\<close>,
  and for a directory its entries in the order of the walk (lexical). Instants are
  integers; \<^verbatim>\<open>t.After(u)\<close> is \<open>u < t\<close>. Every entry of the tree can be stat'ed; the
  callback of \<^verbatim>\<open>scanChange\<close> never looks at its \<^verbatim>\<open>err\<close> parameter, so a directory
  that cannot be read behaves as a directory without entries.
\<close>

datatype entry = File string int | Dir string int "entry list"

fun path :: "entry \<Rightarrow> string" where
  "path (File p t) = p"
| "path (Dir p t es) = p"

fun ModTime :: "entry \<Rightarrow> int" where
  "ModTime (File p t) = t"
| "ModTime (Dir p t es) = t"

fun IsDir :: "entry \<Rightarrow> bool" where
  "IsDir (File p t) = False"
| "IsDir (Dir p t es) = True"

text \<open>
  \<^verbatim>\<open>filepath.Base\<close>: the empty path gives \<open>.\<close>; trailing slashes are stripped; the last
  element is what follows the last slash; a path of slashes only gives \<open>/\<close>.
\<close>

definition Base :: "string \<Rightarrow> string" where
  "Base p =
     (if p = [] then ''.''
      else let stripped = dropWhile isSep (rev p);
               elem = rev (takeWhile (\<lambda>c. \<not> isSep c) stripped)
           in if elem = [] then ''/'' else elem)"

text \<open>
  \<^verbatim>\<open>dir := filepath.Base(path); dir[0] == '.' && dir != "."\<close>. \<open>Base\<close> never returns
  the empty string (lemma \<open>Base_not_empty\<close>), so the index is in range.
\<close>

definition isHidden :: "string \<Rightarrow> bool" where
  "isHidden p = (case Base p of [] \<Rightarrow> False | c # _ \<Rightarrow> c = CHR ''.'' \<and> Base p \<noteq> ''.'')"

definition skipFile :: "entry \<Rightarrow> error option" where
  "skipFile info = (if IsDir info then Some SkipDir else None)"

text \<open>
  The variables of the closure: \<open>fileChanged\<close> is the variable of \<^verbatim>\<open>scanChange\<close> the
  callback assigns; \<open>visited\<close> is a ghost variable, the paths the callback has been
  called with, in order.
\<close>

record scan =
  fileChanged :: string
  visited :: "string list"

definition walkFn :: "watcher \<Rightarrow> int \<Rightarrow> entry \<Rightarrow> scan \<Rightarrow> error option \<times> scan" where
  "walkFn w startTime info s =
     (let s1 = s\<lparr>visited := visited s @ [path info]\<rparr> in
      if isHidden (path info) then (skipFile info, s1)
      else if ignoreItems w (path info) \<noteq> None then (skipFile info, s1)
      else if allowedExtensions w (Ext (path info)) \<noteq> None \<and> startTime < ModTime info
      then (Some ErrDetectedChange, s1\<lparr>fileChanged := path info\<rparr>)
      else (None, s1))"

text \<open>
  \<^verbatim>\<open>filepath.Walk\<close> of the standard library: the callback is called on an entry before
  its children; an error of the callback ends the walk, except \<open>SkipDir\<close> returned for a
  directory, which skips that directory only; \<open>SkipDir\<close> returned for the root is not an
  error of the walk.
\<close>

fun walk :: "(entry \<Rightarrow> 's \<Rightarrow> error option \<times> 's) \<Rightarrow> entry \<Rightarrow> 's \<Rightarrow> error option \<times> 's"
  and walkDir :: "(entry \<Rightarrow> 's \<Rightarrow> error option \<times> 's) \<Rightarrow> entry list \<Rightarrow> 's \<Rightarrow> error option \<times> 's"
  where
  "walk fn (File p t) s = fn (File p t) s"
| "walk fn (Dir p t es) s =
     (case fn (Dir p t es) s of
        (Some err1, s1) \<Rightarrow> (Some err1, s1)
      | (None, s1) \<Rightarrow> walkDir fn es s1)"
| "walkDir fn [] s = (None, s)"
| "walkDir fn (e # es) s =
     (case walk fn e s of
        (None, s1) \<Rightarrow> walkDir fn es s1
      | (Some err, s1) \<Rightarrow>
          if IsDir e \<and> err = SkipDir then walkDir fn es s1 else (Some err, s1))"

definition Walk :: "(entry \<Rightarrow> 's \<Rightarrow> error option \<times> 's) \<Rightarrow> entry \<Rightarrow> 's \<Rightarrow> error option \<times> 's" where
  "Walk fn root s =
     (case walk fn root s of
        (Some err, s1) \<Rightarrow> if err = SkipDir then (None, s1) else (Some err, s1)
      | (None, s1) \<Rightarrow> (None, s1))"

definition scanWalk :: "watcher \<Rightarrow> int \<Rightarrow> entry \<Rightarrow> error option \<times> scan" where
  "scanWalk w startTime root =
     Walk (walkFn w startTime) root \<lparr>fileChanged = [], visited = []\<rparr>"

text \<open>\<^verbatim>\<open>if err != nil && err != errDetectedChange { return "", err }; return fileChanged, nil\<close>\<close>

definition scanChange :: "watcher \<Rightarrow> int \<Rightarrow> entry \<Rightarrow> error + string" where
  "scanChange w startTime root =
     (case scanWalk w startTime root of
        (Some err, s) \<Rightarrow> if err \<noteq> ErrDetectedChange then Inl err else Inr (fileChanged s)
      | (None, s) \<Rightarrow> Inr (fileChanged s))"

text \<open>
  The words of the specification, to compare the walk with. \<open>skipped\<close>: the entry is
  hidden or its exact path is in the ignore set. \<open>reach\<close>: the entries of a pre-order
  traversal in which nothing below a skipped directory is reached. \<open>changed\<close>: the entry
  is not skipped, its extension is in the filter and its modification time is strictly
  after the baseline.
\<close>

definition skipped :: "watcher \<Rightarrow> string \<Rightarrow> bool" where
  "skipped w p \<longleftrightarrow> isHidden p \<or> ignoreItems w p \<noteq> None"

fun reach :: "watcher \<Rightarrow> entry \<Rightarrow> entry list" where
  "reach w (File p t) = [File p t]"
| "reach w (Dir p t es) =
     Dir p t es # (if skipped w p then [] else concat (map (reach w) es))"

definition changed :: "watcher \<Rightarrow> int \<Rightarrow> entry \<Rightarrow> bool" where
  "changed w startTime e \<longleftrightarrow>
     \<not> skipped w (path e) \<and> allowedExtensions w (Ext (path e)) \<noteq> None \<and> startTime < ModTime e"

text \<open>
  The entries the callback is called with when the walk stops at the first changed one,
  and the variables of the closure after these calls.
\<close>

definition upto_first :: "('a \<Rightarrow> bool) \<Rightarrow> 'a list \<Rightarrow> 'a list" where
  "upto_first P xs = takeWhile (\<lambda>x. \<not> P x) xs @ take 1 (dropWhile (\<lambda>x. \<not> P x) xs)"

definition outcome :: "watcher \<Rightarrow> int \<Rightarrow> entry list \<Rightarrow> scan \<Rightarrow> scan" where
  "outcome w t xs s =
     s\<lparr>visited := visited s @ map path (upto_first (changed w t) xs),
       fileChanged := (case find (changed w t) xs of Some c \<Rightarrow> path c | None \<Rightarrow> fileChanged s)\<rparr>"

section \<open>The watch loop\<close>

text \<open>
  \<^verbatim>\<open>var startTime = time.Now()\<close> is a variable of the package, not a field of the
  watcher: it is initialised when the program starts and is the only global state.
\<close>

record globals =
  startTime :: int

text \<open>
  What a run of \<^verbatim>\<open>Watch\<close> does, in order: the calls of \<^verbatim>\<open>scanChange\<close>, the values sent
  on the two channels, the assignments to \<^verbatim>\<open>startTime\<close>, the sleeps.
\<close>

datatype action =
  Scan string | SendEvent string | SetStartTime int | SendError error | Sleep int

text \<open>
  The state of one run: its trace, the number of scans and of cycles it has made, and
  whether \<^verbatim>\<open>Watch\<close> has returned.
\<close>

record run =
  trace :: "action list"
  scans :: nat
  cycles :: nat
  returned :: bool

text \<open>
  The surroundings of a run. \<open>scanner n root t\<close> is what \<^verbatim>\<open>w.scanChange(root)\<close> returns
  at the \<open>n\<close>-th scan of the run when the baseline is \<open>t\<close> (the file system changes
  between scans); \<open>now n\<close> is what \<^verbatim>\<open>time.Now()\<close> returns after the \<open>n\<close>-th scan;
  \<open>order c\<close> is the order in which cycle \<open>c\<close> ranges over the watch items.
\<close>

record world =
  scanner :: "nat \<Rightarrow> string \<Rightarrow> int \<Rightarrow> error + string"
  now :: "nat \<Rightarrow> int"
  order :: "nat \<Rightarrow> string list"

text \<open>The scanner of this package on a file system that shows \<open>tree n root\<close> at scan \<open>n\<close>.\<close>

definition walking :: "watcher \<Rightarrow> (nat \<Rightarrow> string \<Rightarrow> entry) \<Rightarrow> nat \<Rightarrow> string \<Rightarrow> int \<Rightarrow> error + string" where
  "walking w tree n root t = scanChange w t (tree n root)"

text \<open>The inner loop of \<^verbatim>\<open>Watch\<close>: one cycle over the watch items.\<close>

fun watch_cycle :: "world \<Rightarrow> string list \<Rightarrow> globals \<times> run \<Rightarrow> globals \<times> run" where
  "watch_cycle wd [] (g, r) = (g, r)"
| "watch_cycle wd (watchPath # rest) (g, r) =
     (case scanner wd (scans r) watchPath (startTime g) of
        Inl err \<Rightarrow>
          (g, r\<lparr>trace := trace r @ [Scan watchPath, SendError err], returned := True\<rparr>)
      | Inr changedFile \<Rightarrow>
          if changedFile \<noteq> []
          then watch_cycle wd rest
                 (g\<lparr>startTime := now wd (scans r)\<rparr>,
                  r\<lparr>trace := trace r @ [Scan watchPath, SendEvent changedFile,
                                         SetStartTime (now wd (scans r))],
                    scans := Suc (scans r)\<rparr>)
          else watch_cycle wd rest
                 (g, r\<lparr>trace := trace r @ [Scan watchPath], scans := Suc (scans r)\<rparr>))"

text \<open>
  \<^verbatim>\<open>Watch\<close> loops until a scan fails; the first argument bounds the number of cycles
  that are run.
\<close>

fun Watch :: "nat \<Rightarrow> watcher \<Rightarrow> world \<Rightarrow> globals \<times> run \<Rightarrow> globals \<times> run" where
  "Watch 0 w wd (g, r) = (g, r)"
| "Watch (Suc n) w wd (g, r) =
     (case watch_cycle wd (order wd (cycles r)) (g, r) of
        (g1, r1) \<Rightarrow>
          if returned r1 then (g1, r1)
          else Watch n w wd
                 (g1, r1\<lparr>trace := trace r1 @ [Sleep (pollInterval w)],
                       cycles := Suc (cycles r1)\<rparr>))"

definition start :: run where
  "start = \<lparr>trace = [], scans = 0, cycles = 0, returned = False\<rparr>"

fun isEvent :: "action \<Rightarrow> bool" where
  "isEvent (SendEvent p) = True"
| "isEvent a = False"

fun isError :: "action \<Rightarrow> bool" where
  "isError (SendError e) = True"
| "isError a = False"

fun isScan :: "action \<Rightarrow> bool" where
  "isScan (Scan p) = True"
| "isScan a = False"


text \<open>
  \<open>delivered_then_set as\<close>: in the trace \<open>as\<close>, every value sent on the event channel is
  followed at once by an assignment to \<^verbatim>\<open>startTime\<close>, and there is no other assignment.
  \<open>baseline_after t as\<close>: the value of \<^verbatim>\<open>startTime\<close> after the assignments of \<open>as\<close>,
  from the value \<open>t\<close>.
\<close>

fun delivered_then_set :: "action list \<Rightarrow> bool" where
  "delivered_then_set [] = True"
| "delivered_then_set (SendEvent p # SetStartTime t # as) = delivered_then_set as"
| "delivered_then_set (SendEvent p # as) = False"
| "delivered_then_set (SetStartTime t # as) = False"
| "delivered_then_set (a # as) = delivered_then_set as"

fun baseline_after :: "int \<Rightarrow> action list \<Rightarrow> int" where
  "baseline_after t [] = t"
| "baseline_after t (SetStartTime u # as) = baseline_after u as"
| "baseline_after t (a # as) = baseline_after t as"

text \<open>
  The condition under which a run is left alone: either \<^verbatim>\<open>Watch\<close> has not returned and
  has sent no error, or it has returned and the error it sent is the last action.
\<close>

definition quiet :: "action list \<Rightarrow> bool" where
  "quiet as \<longleftrightarrow> (\<forall>a\<in>set as. \<not> isError a)"

definition settled :: "run \<Rightarrow> bool" where
  "settled r \<longleftrightarrow>
     (\<not> returned r \<and> quiet (trace r)) \<or>
     (returned r \<and> (\<exists>pre root err. trace r = pre @ [Scan root, SendError err] \<and> quiet pre))"


text \<open>
  The words of the specification for one cycle, to compare the loop with. \<open>response\<close>:
  what the loop does straight after scan \<open>n\<close>, of \<open>root\<close> with the baseline \<open>t\<close>: it sends
  the error the scanner returned, or it sends the changed path and assigns the clock to
  \<^verbatim>\<open>startTime\<close>, or it does nothing. \<open>cycle_trace\<close>: the actions of a cycle over the
  roots, which begins with scan \<open>n\<close> and the baseline \<open>t\<close>: each root is scanned and
  answered in turn, the next root under the baseline the answer leaves, and an error
  ends the cycle.
\<close>

definition response :: "world \<Rightarrow> nat \<Rightarrow> int \<Rightarrow> string \<Rightarrow> action list" where
  "response wd n t root =
     (case scanner wd n root t of
        Inl err \<Rightarrow> [SendError err]
      | Inr p \<Rightarrow> if p \<noteq> [] then [SendEvent p, SetStartTime (now wd n)] else [])"

fun cycle_trace :: "world \<Rightarrow> nat \<Rightarrow> int \<Rightarrow> string list \<Rightarrow> action list" where
  "cycle_trace wd n t [] = []"
| "cycle_trace wd n t (root # rest) =
     Scan root # response wd n t root @
       (if isl (scanner wd n root t) then []
        else cycle_trace wd (Suc n) (baseline_after t (response wd n t root)) rest)"

text \<open>
  \<open>idle as\<close>: the trace \<open>as\<close> does not begin with something sent or assigned.
  \<open>answered wd n t as\<close>: in the trace \<open>as\<close>, which begins with scan \<open>n\<close> and the baseline
  \<open>t\<close>, no error precedes a scan, and each scan is followed by its response and then by
  nothing sent or assigned; after the response to a scan that failed the trace ends.
\<close>

fun idle :: "action list \<Rightarrow> bool" where
  "idle [] = True"
| "idle (Scan root # as) = True"
| "idle (Sleep d # as) = True"
| "idle (a # as) = False"

definition scans_in :: "action list \<Rightarrow> nat" where
  "scans_in as = length (filter isScan as)"

definition answered :: "world \<Rightarrow> nat \<Rightarrow> int \<Rightarrow> action list \<Rightarrow> bool" where
  "answered wd n t as \<longleftrightarrow>
     (\<forall>pre root post. as = pre @ Scan root # post \<longrightarrow>
        quiet pre \<and>
        (\<exists>rest. post = response wd (n + scans_in pre) (baseline_after t pre) root @ rest
                \<and> idle rest
                \<and> (isl (scanner wd (n + scans_in pre) root (baseline_after t pre))
                     \<longrightarrow> rest = [])))"

section \<open>Example inputs\<close>

text \<open>
  A file system for the examples of path resolution, holding \<open>main.go\<close>, \<open>src/a.go\<close> and
  \<open>src/b.go\<close>, and no directory \<open>missing\<close>: what the glob library returns for four
  patterns. The expansion of \<open>missing/*.go\<close> fails, since the directory to walk cannot be
  stat'ed; any other pattern matches nothing.
\<close>

definition ex_glob :: glob where
  "ex_glob p =
     (if p = ''src/*'' then Inr [''src/a.go'']
      else if p = ''*.g*'' then Inr [''main.go'']
      else if p = ''src/*.go'' then Inr [''src/a.go'', ''src/b.go'']
      else if p = ''missing/*.go''
      then Inl (OSError ''lstat missing: no such file or directory'')
      else Inr [])"


definition ex_defaults :: defaults where
  "ex_defaults = \<lparr>DefaultPoolInterval = 500, DefaultExtensions = [''go'']\<rparr>"

definition it_empty :: iteration where
  "it_empty = \<lparr>outer = [], inner = (\<lambda>p. []), cleanup = []\<rparr>"

definition it_one :: "string \<Rightarrow> iteration" where
  "it_one p = \<lparr>outer = [p], inner = (\<lambda>q. [p]), cleanup = [p]\<rparr>"

definition ex_paths :: "string list" where
  "ex_paths = [''/root/proj'', ''src/*.go'', ''/root/proj/sub'']"

definition ex_map :: pathmap where
  "ex_map = [''/root/proj'' \<mapsto> True, ''src/a.go'' \<mapsto> True, ''src/b.go'' \<mapsto> True,
             ''/root/proj/sub'' \<mapsto> True]"

definition it_a :: iteration where
  "it_a = \<lparr>outer = [''/root/proj/sub'', ''src/b.go'', ''/root/proj'', ''src/a.go''],
           inner = (\<lambda>p. [''src/a.go'', ''/root/proj'', ''/root/proj/sub'', ''src/b.go'']),
           cleanup = [''/root/proj'', ''/root/proj/sub'', ''src/a.go'', ''src/b.go'']\<rparr>"

definition it_b :: iteration where
  "it_b = \<lparr>outer = [''/root/proj'', ''src/a.go'', ''src/b.go'', ''/root/proj/sub''],
           inner = (\<lambda>p. [''/root/proj/sub'', ''src/b.go'', ''src/a.go'', ''/root/proj'']),
           cleanup = [''src/b.go'', ''src/a.go'', ''/root/proj/sub'', ''/root/proj'']\<rparr>"

text \<open>A watcher of \<open>/root/proj\<close> for Go files, and one that also ignores \<open>/root/proj/sub\<close>.\<close>

definition ex_watcher :: watcher where
  "ex_watcher = \<lparr>pollInterval = 500, watchItems = [''/root/proj'' \<mapsto> True],
                 ignoreItems = Map.empty, allowedExtensions = [''.go'' \<mapsto> True]\<rparr>"

definition ex_ignoring :: watcher where
  "ex_ignoring = ex_watcher\<lparr>ignoreItems := [''/root/proj/sub'' \<mapsto> True]\<rparr>"

definition ex_tree :: entry where
  "ex_tree =
     Dir ''/root/proj'' 3
       [Dir ''/root/proj/.git'' 9 [File ''/root/proj/.git/x.go'' 9],
        File ''/root/proj/a.go'' 2,
        File ''/root/proj/b.log'' 9,
        File ''/root/proj/c.go'' 8,
        File ''/root/proj/d.go'' 9]"

definition ex_sub :: entry where
  "ex_sub = Dir ''/root/proj/sub'' 9 [File ''/root/proj/sub/y.go'' 9]"


text \<open>
  Two roots \<open>/a\<close> and \<open>/b\<close>: \<open>/a/x.go\<close> was written at 5 and \<open>/b/y.go\<close> at 7; the
  clock reads 6 after the first scan of a run and 10 later.
\<close>

definition ex_roots :: "nat \<Rightarrow> string \<Rightarrow> entry" where
  "ex_roots n root =
     (if root = ''/a'' then Dir ''/a'' 0 [File ''/a/x.go'' 5]
      else Dir ''/b'' 0 [File ''/b/y.go'' 7])"

definition ex_both :: watcher where
  "ex_both = \<lparr>pollInterval = 500, watchItems = [''/a'' \<mapsto> True, ''/b'' \<mapsto> True],
              ignoreItems = Map.empty, allowedExtensions = [''.go'' \<mapsto> True]\<rparr>"

definition ex_world :: world where
  "ex_world = \<lparr>scanner = walking ex_both ex_roots,
               now = (\<lambda>n. if n = 0 then 6 else 10),
               order = (\<lambda>c. [''/a'', ''/b''])\<rparr>"

text \<open>Two watchers in one process, one for \<open>/a\<close> and one for \<open>/b\<close>.\<close>

definition ex_first :: watcher where
  "ex_first = ex_both\<lparr>watchItems := [''/a'' \<mapsto> True]\<rparr>"

definition ex_second :: watcher where
  "ex_second = ex_both\<lparr>watchItems := [''/b'' \<mapsto> True]\<rparr>"

definition ex_world_first :: world where
  "ex_world_first = \<lparr>scanner = walking ex_first ex_roots, now = (\<lambda>n. 10),
                     order = (\<lambda>c. [''/a''])\<rparr>"

definition ex_world_second :: world where
  "ex_world_second = \<lparr>scanner = walking ex_second ex_roots, now = (\<lambda>n. 10),
                      order = (\<lambda>c. [''/b''])\<rparr>"



section \<open>Properties of overlap removal\<close>

lemma mark_inner_sound:
  "sound D m \<Longrightarrow> p1 \<in> D \<Longrightarrow> set ps \<subseteq> D \<Longrightarrow> sound D (mark_inner p1 ps m)"
proof (induction ps arbitrary: m)
  case Nil
  then show ?case by simp
next
  case (Cons p2 ps)
  have a: "sound D (m(p2 \<mapsto> False))" if "p1 \<noteq> p2" "prefix p1 p2"
    using that Cons.prems unfolding sound_def covered_def by (auto simp: strict_prefix_def)
  have b: "sound D (m(p1 \<mapsto> False))" if "p1 \<noteq> p2" "prefix p2 p1"
    using that Cons.prems unfolding sound_def covered_def by (auto simp: strict_prefix_def)
  have c: "sound D (mark_inner p1 ps m')" if "sound D m'" for m'
    using that Cons.prems by (intro Cons.IH) auto
  show ?case
  proof (cases "p1 = p2")
    case True
    then show ?thesis using c Cons.prems(1) by simp
  next
    case False
    then show ?thesis using a b c Cons.prems(1) by (simp add: HasPrefix_def)
  qed
qed

lemma mark_inner_keeps_false:
  "m x = Some False \<Longrightarrow> mark_inner p1 ps m x = Some False"
  by (induction ps arbitrary: m) auto

lemma mark_inner_marks:
  "p2 \<in> set ps \<Longrightarrow> p2 \<noteq> p1 \<Longrightarrow> prefix p1 p2 \<Longrightarrow> mark_inner p1 ps m p2 = Some False"
  by (induction ps arbitrary: m) (auto simp: HasPrefix_def mark_inner_keeps_false)

lemma mark_outer_sound:
  "sound D m \<Longrightarrow> set ks \<subseteq> D \<Longrightarrow> (\<forall>p1. set (inn p1) \<subseteq> D) \<Longrightarrow> sound D (mark_outer inn ks m)"
  by (induction ks arbitrary: m) (auto intro: mark_inner_sound)

lemma mark_outer_keeps_false:
  "m x = Some False \<Longrightarrow> mark_outer inn ks m x = Some False"
  by (induction ks arbitrary: m) (auto simp: mark_inner_keeps_false)

lemma mark_outer_marks:
  assumes "sound D m" "set ks \<subseteq> D" "\<forall>p1. set (inn p1) = D"
    and "p1 \<in> set ks" "\<not> covered D p1" "x \<in> D" "strict_prefix p1 x"
  shows "mark_outer inn ks m x = Some False"
  using assms
proof (induction ks arbitrary: m)
  case Nil
  then show ?case by simp
next
  case (Cons k ks)
  show ?case
  proof (cases "k = p1")
    case True
    have "p1 \<in> D" using Cons.prems(4,2) by auto
    then have "m p1 = Some True \<or> (m p1 = Some False \<and> covered D p1)"
      using Cons.prems(1) unfolding sound_def by blast
    then have "m p1 \<noteq> Some False"
      using Cons.prems(5) by auto
    moreover have "mark_inner p1 (inn p1) m x = Some False"
      using Cons.prems by (intro mark_inner_marks) (auto simp: strict_prefix_def)
    ultimately show ?thesis
      by (simp add: True mark_outer_keeps_false)
  next
    case False
    have s: "sound D (mark_inner k (inn k) m)"
      using Cons.prems by (intro mark_inner_sound) auto
    from False Cons.prems s show ?thesis
      by (auto intro!: Cons.IH)
  qed
qed

lemma least_prefix:
  assumes "covered D x"
  shows "\<exists>p\<in>D. strict_prefix p x \<and> \<not> covered D p"
proof -
  let ?P = "\<lambda>n. \<exists>p\<in>D. strict_prefix p x \<and> length p = n"
  from assms have "\<exists>n. ?P n" unfolding covered_def by blast
  then obtain n where n: "?P n" "\<And>k. k < n \<Longrightarrow> \<not> ?P k"
    using exists_least_iff[of ?P] by blast
  then obtain p where p: "p \<in> D" "strict_prefix p x" "length p = n" by blast
  have "\<not> covered D p"
  proof
    assume "covered D p"
    then obtain q where q: "q \<in> D" "strict_prefix q p" unfolding covered_def by blast
    then have "strict_prefix q x" using p(2) by (meson prefix_order.less_trans)
    moreover have "length q < n" using q(2) p(3)
      by (metis prefix_length_less)
    ultimately show False using n(2) q(1) by blast
  qed
  with p show ?thesis by blast
qed

lemma sweep_apply:
  "sweep ks m x = (if x \<in> set ks \<and> m x \<noteq> Some True then None else m x)"
  by (induction ks arbitrary: m) auto

lemma removeOverlappedPaths_char:
  assumes f: "fair it m" and t: "\<forall>p\<in>dom m. m p = Some True"
  shows "removeOverlappedPaths it m =
         (\<lambda>p. if p \<in> dom m \<and> \<not> covered (dom m) p then Some True else None)"
proof
  fix x
  let ?D = "dom m"
  let ?m' = "mark_outer (inner it) (outer it) m"
  from f have o: "set (outer it) = ?D" and i: "\<forall>p1. set (inner it p1) = ?D"
    and c: "set (cleanup it) = ?D"
    by (auto simp: fair_def ranges_over_def)
  have s0: "sound ?D m" using t by (auto simp: sound_def)
  have s: "sound ?D ?m'"
    using s0 o i by (intro mark_outer_sound) auto
  show "removeOverlappedPaths it m x =
        (if x \<in> ?D \<and> \<not> covered ?D x then Some True else None)"
  proof (cases "x \<in> ?D")
    case False
    with s have "?m' x = None" by (auto simp: sound_def)
    with False show ?thesis by (simp add: removeOverlappedPaths_def sweep_apply)
  next
    case True
    show ?thesis
    proof (cases "covered ?D x")
      case cov: True
      then obtain p where p: "p \<in> ?D" "strict_prefix p x" "\<not> covered ?D p"
        using least_prefix by blast
      have "?m' x = Some False"
        using s0 o i p True by (intro mark_outer_marks[where D="?D" and ?p1.0=p]) auto
      with True cov c show ?thesis by (simp add: removeOverlappedPaths_def sweep_apply)
    next
      case ncov: False
      with s True have "?m' x = Some True" unfolding sound_def by blast
      with True ncov show ?thesis by (simp add: removeOverlappedPaths_def sweep_apply)
    qed
  qed
qed


lemma add_matches_skip:
  "b \<Longrightarrow> exts (Ext pa) = None \<Longrightarrow> add_matches b pa exts ms m = m"
  by (induction ms) auto

lemma add_matches_keep:
  "\<not> (b \<and> exts (Ext pa) = None) \<Longrightarrow>
   add_matches b pa exts ms m = (\<lambda>p. if p \<in> set ms \<and> m p = None then Some True else m p)"
proof (induction ms arbitrary: m)
  case Nil
  then show ?case by simp
next
  case (Cons a ms)
  show ?case
  proof (cases "m a")
    case None
    with Cons.prems have "add_matches b pa exts (a # ms) m = add_matches b pa exts ms (m(a \<mapsto> True))"
      by auto
    also have "\<dots> = (\<lambda>p. if p \<in> set ms \<and> (m(a \<mapsto> True)) p = None then Some True else (m(a \<mapsto> True)) p)"
      by (rule Cons.IH[OF Cons.prems])
    also have "\<dots> = (\<lambda>p. if p \<in> set (a # ms) \<and> m p = None then Some True else m p)"
      using None by (auto simp: fun_eq_iff)
    finally show ?thesis .
  next
    case (Some v)
    with Cons.prems have "add_matches b pa exts (a # ms) m = add_matches b pa exts ms m"
      by auto
    also have "\<dots> = (\<lambda>p. if p \<in> set ms \<and> m p = None then Some True else m p)"
      by (rule Cons.IH[OF Cons.prems])
    also have "\<dots> = (\<lambda>p. if p \<in> set (a # ms) \<and> m p = None then Some True else m p)"
      using Some by (auto simp: fun_eq_iff)
    finally show ?thesis .
  qed
qed

lemma add_matches_true:
  assumes "\<forall>p\<in>dom m. m p = Some True"
  shows "\<forall>p\<in>dom (add_matches b pa exts ms m). add_matches b pa exts ms m p = Some True"
proof (cases "b \<and> exts (Ext pa) = None")
  case True
  then show ?thesis using assms by (simp add: add_matches_skip)
next
  case False
  show ?thesis
    unfolding add_matches_keep[of b exts pa ms m, OF False] using assms
    by (fastforce simp: dom_def split: if_splits)
qed

lemma add_matches_dom:
  "dom (add_matches b pa exts ms m) =
   dom m \<union> (if b \<and> exts (Ext pa) = None then {} else set ms)"
proof (cases "b \<and> exts (Ext pa) = None")
  case True
  then show ?thesis by (simp add: add_matches_skip)
next
  case False
  show ?thesis
    unfolding add_matches_keep[of b exts pa ms m, OF False] using False by (auto simp: dom_def split: if_splits)
qed

lemma collect_true:
  "collect g exts ps m = Inr m' \<Longrightarrow> \<forall>p\<in>dom m. m p = Some True \<Longrightarrow>
   \<forall>p\<in>dom m'. m' p = Some True"
proof (induction ps arbitrary: m)
  case Nil
  then show ?case by simp
next
  case (Cons pa ps)
  show ?case
  proof (cases "isGlobPath pa")
    case True
    with Cons.prems(1) obtain ms where ms: "g pa = Inr ms"
      "collect g exts ps (add_matches True pa exts ms m) = Inr m'"
      by (auto split: sum.splits)
    show ?thesis
      by (rule Cons.IH[OF ms(2)]) (rule add_matches_true[OF Cons.prems(2)])
  next
    case False
    with Cons.prems(1) have "collect g exts ps (add_matches False pa exts [pa] m) = Inr m'"
      by simp
    then show ?thesis
      by (rule Cons.IH) (rule add_matches_true[OF Cons.prems(2)])
  qed
qed




text \<open>
  Claim C5. Overlap removal discards exactly the members that have a proper string
  prefix among the other members: on a map whose values are all \<open>true\<close> (what
  \<^verbatim>\<open>resolvePaths\<close> passes), and whatever the order in which the three loops range over
  the map, the keys left are those of which no other key is a proper prefix; hence no
  key left is a proper prefix of another.
\<close>

theorem overlap_removal_exact:
  assumes "fair it m" and "\<forall>p\<in>dom m. m p = Some True"
  shows "dom (removeOverlappedPaths it m) = {p \<in> dom m. \<not> (\<exists>q\<in>dom m. strict_prefix q p)}
       \<and> (\<forall>p\<in>dom (removeOverlappedPaths it m). \<forall>q\<in>dom (removeOverlappedPaths it m).
            \<not> strict_prefix p q)"
proof -
  let ?r = "removeOverlappedPaths it m"
  have d: "dom ?r = {p \<in> dom m. \<not> covered (dom m) p}"
    unfolding removeOverlappedPaths_char[OF assms] by (auto simp: dom_def split: if_splits)
  have "\<not> strict_prefix p q" if "p \<in> dom ?r" "q \<in> dom ?r" for p q
    using that unfolding d covered_def by blast
  with d show ?thesis unfolding covered_def by blast
qed


theorem overlap_removal_exact_witness:
  "fair it_a ex_map \<and> ran ex_map = {True}
   \<and> dom (removeOverlappedPaths it_a ex_map) = {''/root/proj'', ''src/a.go'', ''src/b.go''}"
proof -
  have f: "fair it_a ex_map"
    by (auto simp: fair_def ranges_over_def it_a_def ex_map_def)
  have t: "\<forall>p\<in>dom ex_map. ex_map p = Some True"
    by (simp add: ex_map_def)
  have "dom (removeOverlappedPaths it_a ex_map)
        = {p \<in> dom ex_map. \<not> (\<exists>q\<in>dom ex_map. strict_prefix q p)}"
    using overlap_removal_exact[OF f t] by blast
  also have "\<dots> = {''/root/proj'', ''src/a.go'', ''src/b.go''}"
    by (auto simp: ex_map_def)
  finally have d: "dom (removeOverlappedPaths it_a ex_map)
                   = {''/root/proj'', ''src/a.go'', ''src/b.go''}" .
  have r: "ran ex_map = {True}"
    by (auto simp: ex_map_def ran_def)
  from f r d show ?thesis by blast
qed

section \<open>Properties of path resolution\<close>

text \<open>
  Claim C9. Path resolution is deterministic: with the same glob results, two
  resolutions of the same inputs give the same map, whatever the orders in which the
  loops of \<^verbatim>\<open>removeOverlappedPaths\<close> range over the candidates.
\<close>

theorem resolvePaths_order_independent:
  assumes "\<And>m. collect g exts paths Map.empty = Inr m \<Longrightarrow> fair it1 m"
    and "\<And>m. collect g exts paths Map.empty = Inr m \<Longrightarrow> fair it2 m"
  shows "resolvePaths g it1 paths exts = resolvePaths g it2 paths exts"
proof (cases "collect g exts paths Map.empty")
  case (Inl err)
  then show ?thesis by (simp add: resolvePaths_def)
next
  case (Inr m)
  have t: "\<forall>p\<in>dom m. m p = Some True"
    using collect_true[OF Inr] by simp
  show ?thesis
    using Inr removeOverlappedPaths_char[OF assms(1)[OF Inr] t]
      removeOverlappedPaths_char[OF assms(2)[OF Inr] t]
    by (simp add: resolvePaths_def)
qed


theorem resolvePaths_order_independent_witness:
  "collect ex_glob (allow [''go''] Map.empty) ex_paths Map.empty = Inr ex_map
   \<and> fair it_a ex_map \<and> fair it_b ex_map
   \<and> resolvePaths ex_glob it_a ex_paths (allow [''go''] Map.empty)
     = resolvePaths ex_glob it_b ex_paths (allow [''go''] Map.empty)"
proof -
  have c: "collect ex_glob (allow [''go''] Map.empty) ex_paths Map.empty = Inr ex_map"
    by (simp add: ex_glob_def ex_paths_def ex_map_def isGlobPath_def Ext_def isSep_def
          fun_upd_twist)
  have fa: "fair it_a ex_map" and fb: "fair it_b ex_map"
    by (auto simp: fair_def ranges_over_def it_a_def it_b_def ex_map_def)
  have "resolvePaths ex_glob it_a ex_paths (allow [''go''] Map.empty)
        = resolvePaths ex_glob it_b ex_paths (allow [''go''] Map.empty)"
    by (rule resolvePaths_order_independent) (use c fa fb in auto)
  with c fa fb show ?thesis by blast
qed




text \<open>
  Claim C1, where the code departs from it. The test made for each match of a glob
  pattern is on the extension of the pattern, \<^verbatim>\<open>filepath.Ext(path)\<close>, not on that of
  the match. With the filter \<open>{.go}\<close>, the pattern \<open>src/*\<close> has no extension, so its match
  \<open>src/a.go\<close> is dropped although \<open>.go\<close> is in the filter; with the filter \<open>{.g*}\<close>, the
  pattern \<open>*.g*\<close> passes, so its match \<open>main.go\<close> is kept although \<open>.go\<close> is not in the
  filter.
\<close>

theorem glob_filter_tests_pattern_extension:
  "resolvePaths ex_glob it_empty [''src/*''] (allow [''go''] Map.empty) = Inr Map.empty
   \<and> allow [''go''] Map.empty (Ext ''src/a.go'') = Some True
   \<and> NewWatcher ex_defaults ex_glob it_empty it_empty 0 [''src/*''] [] [''go'']
     = Inr \<lparr>pollInterval = 500, watchItems = Map.empty, ignoreItems = Map.empty,
            allowedExtensions = [''.go'' \<mapsto> True]\<rparr>
   \<and> resolvePaths ex_glob (it_one ''main.go'') [''*.g*''] (allow [''g*''] Map.empty)
     = Inr [''main.go'' \<mapsto> True]
   \<and> allow [''g*''] Map.empty (Ext ''main.go'') = None"
  by (simp add: NewWatcher_def ex_defaults_def resolvePaths_def ex_glob_def it_empty_def
        it_one_def isGlobPath_def Ext_def isSep_def removeOverlappedPaths_def HasPrefix_def)

section \<open>Properties of the scanner\<close>

text \<open>
  The walk with the callback of \<^verbatim>\<open>scanChange\<close> calls it on the entries of \<open>reach\<close>, in
  order, up to and including the first changed one.
\<close>

lemma upto_first_Cons:
  "upto_first P (x # xs) = (if P x then [x] else x # upto_first P xs)"
  by (simp add: upto_first_def)

lemma upto_first_Nil: "upto_first P [] = []"
  by (simp add: upto_first_def)

lemma upto_first_append:
  "upto_first P (xs @ ys) = (if find P xs = None then xs @ upto_first P ys else upto_first P xs)"
  by (induction xs) (auto simp: upto_first_Cons)

lemma upto_first_none: "find P xs = None \<Longrightarrow> upto_first P xs = xs"
  by (induction xs) (auto simp: upto_first_Cons upto_first_Nil split: if_splits)

lemma find_append:
  "find P (xs @ ys) = (case find P xs of None \<Rightarrow> find P ys | Some x \<Rightarrow> Some x)"
  by (induction xs) auto

lemma walkFn_char:
  "walkFn w b e s =
     (if changed w b e then Some ErrDetectedChange
      else if IsDir e \<and> skipped w (path e) then Some SkipDir else None,
      s\<lparr>visited := visited s @ [path e],
        fileChanged := (if changed w b e then path e else fileChanged s)\<rparr>)"
  by (auto simp: walkFn_def Let_def changed_def skipped_def skipFile_def)

lemma walk_char:
  "walk (walkFn w b) e s =
     (case find (changed w b) (reach w e) of
        Some c \<Rightarrow> Some ErrDetectedChange
      | None \<Rightarrow> if IsDir e \<and> skipped w (path e) then Some SkipDir else None,
      outcome w b (reach w e) s)"
  "walkDir (walkFn w b) es s =
     (case find (changed w b) (concat (map (reach w) es)) of
        Some c \<Rightarrow> Some ErrDetectedChange
      | None \<Rightarrow> None,
      outcome w b (concat (map (reach w) es)) s)"
proof (induction "walkFn w b" e s and "walkFn w b" es s rule: walk_walkDir.induct)
  case (1 p t s)
  then show ?case
    by (simp add: walkFn_char outcome_def upto_first_Cons upto_first_Nil)
next
  case (2 p t es s)
  show ?case
  proof (cases "changed w b (Dir p t es)")
    case True
    then show ?thesis
      by (simp add: walkFn_char outcome_def upto_first_Cons)
  next
    case nc: False
    show ?thesis
    proof (cases "skipped w p")
      case True
      with nc show ?thesis
        by (simp add: walkFn_char outcome_def upto_first_Cons upto_first_Nil)
    next
      case False
      have fn: "walkFn w b (Dir p t es) s = (None, s\<lparr>visited := visited s @ [p]\<rparr>)"
        using nc False by (simp add: walkFn_char)
      show ?thesis
        using nc False "2"[OF fn[symmetric] refl]
        by (simp add: fn outcome_def upto_first_Cons split: option.splits)
    qed
  qed
next
  case (3 s)
  then show ?case by (simp add: outcome_def upto_first_Nil)
next
  case (4 e es s)
  let ?P = "changed w b"
  obtain r s1 where w1: "walk (walkFn w b) e s = (r, s1)" by fastforce
  have r: "r = (case find ?P (reach w e) of Some c \<Rightarrow> Some ErrDetectedChange
               | None \<Rightarrow> if IsDir e \<and> skipped w (path e) then Some SkipDir else None)"
    and s1: "s1 = outcome w b (reach w e) s"
    using "4"(1) w1 by auto
  show ?case
  proof (cases "find ?P (reach w e)")
    case (Some c)
    then show ?thesis
      using w1 r s1 by (simp add: find_append upto_first_append upto_first_none outcome_def
            split: option.splits)
  next
    case None
    show ?thesis
    proof (cases "IsDir e \<and> skipped w (path e)")
      case True
      with None r have r': "r = Some SkipDir" by simp
      from "4"(3)[OF w1[symmetric] r'] True
      show ?thesis
        using w1 r' s1 None True by (simp add: find_append upto_first_append upto_first_none outcome_def
            split: option.splits)
    next
      case False
      with None r have r': "r = None" by simp
      from "4"(2)[OF w1[symmetric] r']
      show ?thesis
        using w1 r' s1 None False by (simp add: find_append upto_first_append upto_first_none outcome_def
            split: option.splits)
    qed
  qed
qed


lemma scanWalk_char:
  "scanWalk w t root =
     (case find (changed w t) (reach w root) of
        Some c \<Rightarrow> Some ErrDetectedChange
      | None \<Rightarrow> None,
      outcome w t (reach w root) \<lparr>fileChanged = [], visited = []\<rparr>)"
  by (simp add: scanWalk_def Walk_def walk_char(1) split: option.splits)

lemma scanChange_char:
  "scanChange w t root =
     Inr (case find (changed w t) (reach w root) of Some c \<Rightarrow> path c | None \<Rightarrow> [])"
  by (simp add: scanChange_def scanWalk_char outcome_def split: option.splits)

lemma scanChange_returns_path: "\<exists>p. scanChange w t root = Inr p"
  by (simp add: scanChange_char)

lemma Base_not_empty: "Base p \<noteq> []"
  by (simp add: Base_def Let_def)


text \<open>
  Claim C6. The scanner returns the path of the first entry, in the pre-order traversal,
  that is not skipped, has its extension in the filter and was modified strictly after
  the baseline, and the empty string when there is none. The callback is called on the
  entries that precede it and on it, and on no entry after it. A path returned is that of
  an entry modified strictly after the baseline.
\<close>

theorem scan_returns_first_changed:
  "scanChange w t root =
     Inr (case find (changed w t) (reach w root) of Some e \<Rightarrow> path e | None \<Rightarrow> [])
   \<and> visited (snd (scanWalk w t root)) =
       map path (takeWhile (\<lambda>e. \<not> changed w t e) (reach w root)
                 @ take 1 (dropWhile (\<lambda>e. \<not> changed w t e) (reach w root)))
   \<and> (\<forall>p. scanChange w t root = Inr p \<and> p \<noteq> [] \<longrightarrow>
          (\<exists>e\<in>set (reach w root). path e = p \<and> t < ModTime e
             \<and> allowedExtensions w (Ext p) \<noteq> None))"
proof -
  have a: "scanChange w t root =
     Inr (case find (changed w t) (reach w root) of Some e \<Rightarrow> path e | None \<Rightarrow> [])"
    by (rule scanChange_char)
  have b: "visited (snd (scanWalk w t root)) =
       map path (takeWhile (\<lambda>e. \<not> changed w t e) (reach w root)
                 @ take 1 (dropWhile (\<lambda>e. \<not> changed w t e) (reach w root)))"
    by (simp add: scanWalk_char outcome_def upto_first_def)
  have c: "\<exists>e\<in>set (reach w root). path e = p \<and> t < ModTime e
             \<and> allowedExtensions w (Ext p) \<noteq> None"
    if "scanChange w t root = Inr p" "p \<noteq> []" for p
  proof (cases "find (changed w t) (reach w root)")
    case None
    with that show ?thesis by (simp add: scanChange_char)
  next
    case (Some e)
    then have "e \<in> set (reach w root)" "changed w t e"
      by (auto simp: find_Some_iff)
    moreover have "path e = p" using that(1) Some by (simp add: scanChange_char)
    ultimately show ?thesis by (auto simp: changed_def)
  qed
  from a b c show ?thesis by blast
qed


theorem scan_returns_first_changed_witness:
  "scanChange ex_watcher 5 ex_tree = Inr ''/root/proj/c.go''
   \<and> visited (snd (scanWalk ex_watcher 5 ex_tree)) =
       [''/root/proj'', ''/root/proj/.git'', ''/root/proj/a.go'', ''/root/proj/b.log'',
        ''/root/proj/c.go'']"
proof -
  have r: "reach ex_watcher ex_tree =
     [ex_tree, Dir ''/root/proj/.git'' 9 [File ''/root/proj/.git/x.go'' 9],
      File ''/root/proj/a.go'' 2, File ''/root/proj/b.log'' 9, File ''/root/proj/c.go'' 8,
      File ''/root/proj/d.go'' 9]"
    by (simp add: ex_tree_def ex_watcher_def skipped_def isHidden_def Base_def isSep_def Let_def)
  have c: "\<not> changed ex_watcher 5 ex_tree"
    "\<not> changed ex_watcher 5 (Dir ''/root/proj/.git'' 9 [File ''/root/proj/.git/x.go'' 9])"
    "\<not> changed ex_watcher 5 (File ''/root/proj/a.go'' 2)"
    "\<not> changed ex_watcher 5 (File ''/root/proj/b.log'' 9)"
    "changed ex_watcher 5 (File ''/root/proj/c.go'' 8)"
    by (simp_all add: changed_def ex_tree_def ex_watcher_def skipped_def isHidden_def Base_def
          Ext_def isSep_def Let_def)
  show ?thesis
    using scan_returns_first_changed[of ex_watcher 5 ex_tree] by (simp add: r c) (simp add: ex_tree_def)
qed


text \<open>
  Claim C8. At an entry whose exact path is in the ignore set, file or directory, the
  walk calls the callback on that entry only, reports nothing and goes on with the
  entries that follow it in its directory: a directory is pruned with all that is below
  it, a file is skipped alone. The test is equality of paths: an entry whose path extends
  an ignored path, and is not itself in the set, is reported when it is scanned.
\<close>

theorem ignored_path_exact_match:
  assumes "ignoreItems w (path e) \<noteq> None"
  shows "walkDir (walkFn w t) (e # rest) s
           = walkDir (walkFn w t) rest (s\<lparr>visited := visited s @ [path e]\<rparr>)
       \<and> scanChange w t e = Inr []
       \<and> visited (snd (scanWalk w t e)) = [path e]
       \<and> (\<forall>d. prefix (path e) (path d) \<and> ignoreItems w (path d) = None
              \<and> \<not> isHidden (path d) \<and> allowedExtensions w (Ext (path d)) \<noteq> None
              \<and> t < ModTime d \<longrightarrow> scanChange w t d = Inr (path d))"
proof -
  have sk: "skipped w (path e)" using assms by (simp add: skipped_def)
  have r: "reach w e = [e]" using sk by (cases e) auto
  have nc: "\<not> changed w t e" using sk by (simp add: changed_def)
  have a: "walkDir (walkFn w t) (e # rest) s
           = walkDir (walkFn w t) rest (s\<lparr>visited := visited s @ [path e]\<rparr>)"
    using r nc sk
    by (simp add: walk_char(1) outcome_def upto_first_Cons upto_first_Nil)
  have b: "scanChange w t e = Inr []"
    using r nc by (simp add: scanChange_char)
  have c: "visited (snd (scanWalk w t e)) = [path e]"
    using r nc by (simp add: scanWalk_char outcome_def upto_first_Cons upto_first_Nil)
  have d: "scanChange w t d = Inr (path d)"
    if "ignoreItems w (path d) = None" "\<not> isHidden (path d)"
       "allowedExtensions w (Ext (path d)) \<noteq> None" "t < ModTime d" for d
  proof -
    have "changed w t d" using that by (simp add: changed_def skipped_def)
    then have "find (changed w t) (reach w d) = Some d" by (cases d) auto
    then show ?thesis by (simp add: scanChange_char)
  qed
  from a b c d show ?thesis by blast
qed


theorem ignored_path_exact_match_witness:
  "ignoreItems ex_ignoring (path ex_sub) \<noteq> None
   \<and> scanChange ex_ignoring 5 ex_sub = Inr []
   \<and> scanChange ex_ignoring 5 (Dir ''/root/proj'' 3 [ex_sub]) = Inr []
   \<and> visited (snd (scanWalk ex_ignoring 5 (Dir ''/root/proj'' 3 [ex_sub])))
       = [''/root/proj'', ''/root/proj/sub'']
   \<and> scanChange ex_ignoring 5 (File ''/root/proj/sub/y.go'' 9) = Inr ''/root/proj/sub/y.go''"
proof -
  have i: "ignoreItems ex_ignoring (path ex_sub) \<noteq> None"
    by (simp add: ex_ignoring_def ex_sub_def)
  note th = ignored_path_exact_match[OF i, of 5 "[]" "\<lparr>fileChanged = [], visited = [''/root/proj'']\<rparr>"]
  have top: "walkFn ex_ignoring 5 (Dir ''/root/proj'' 3 [ex_sub]) \<lparr>fileChanged = [], visited = []\<rparr>
             = (None, \<lparr>fileChanged = [], visited = [''/root/proj'']\<rparr>)"
    by (simp add: walkFn_def ex_ignoring_def ex_watcher_def isHidden_def Base_def Ext_def
          isSep_def Let_def)
  have w: "walk (walkFn ex_ignoring 5) (Dir ''/root/proj'' 3 [ex_sub]) \<lparr>fileChanged = [], visited = []\<rparr>
           = (None, \<lparr>fileChanged = [], visited = [''/root/proj'', ''/root/proj/sub'']\<rparr>)"
    using th by (simp add: top) (simp add: ex_sub_def)
  from th have al: "\<forall>d. prefix (path ex_sub) (path d) \<and> ignoreItems ex_ignoring (path d) = None
              \<and> \<not> isHidden (path d) \<and> allowedExtensions ex_ignoring (Ext (path d)) \<noteq> None
              \<and> 5 < ModTime d \<longrightarrow> scanChange ex_ignoring 5 d = Inr (path d)"
    by blast
  have pre: "prefix (path ex_sub) (path (File ''/root/proj/sub/y.go'' 9))
       \<and> ignoreItems ex_ignoring (path (File ''/root/proj/sub/y.go'' 9)) = None
       \<and> \<not> isHidden (path (File ''/root/proj/sub/y.go'' 9))
       \<and> allowedExtensions ex_ignoring (Ext (path (File ''/root/proj/sub/y.go'' 9))) \<noteq> None
       \<and> 5 < ModTime (File ''/root/proj/sub/y.go'' 9)"
    by (simp add: ex_sub_def ex_ignoring_def ex_watcher_def isHidden_def Base_def Ext_def
          isSep_def Let_def)
  have y: "scanChange ex_ignoring 5 (File ''/root/proj/sub/y.go'' 9) = Inr ''/root/proj/sub/y.go''"
    using al[rule_format, OF pre] by simp
  from th i w y show ?thesis
    by (simp add: scanChange_def scanWalk_def Walk_def)
qed





section \<open>Properties of the watch loop\<close>

lemma quiet_append: "quiet (xs @ ys) \<longleftrightarrow> quiet xs \<and> quiet ys"
  by (auto simp: quiet_def)

lemma watch_cycle_settled:
  "\<not> returned r \<Longrightarrow> quiet (trace r) \<Longrightarrow> settled (snd (watch_cycle wd roots (g, r)))"
proof (induction roots arbitrary: g r)
  case Nil
  then show ?case by (simp add: settled_def)
next
  case (Cons root roots)
  show ?case
  proof (cases "scanner wd (scans r) root (startTime g)")
    case (Inl err)
    then show ?thesis
      using Cons.prems by (auto simp: settled_def)
  next
    case (Inr p)
    show ?thesis
      using Inr Cons.prems
      by (auto simp: quiet_append quiet_def intro!: Cons.IH)
  qed
qed

lemma Watch_settled:
  "\<not> returned r \<Longrightarrow> quiet (trace r) \<Longrightarrow> settled (snd (Watch n w wd (g, r)))"
proof (induction n arbitrary: g r)
  case 0
  then show ?case by (simp add: settled_def)
next
  case (Suc n)
  obtain g1 r1 where c: "watch_cycle wd (order wd (cycles r)) (g, r) = (g1, r1)"
    by fastforce
  have s: "settled r1"
    using watch_cycle_settled[OF Suc.prems, of wd "order wd (cycles r)" g] c by simp
  show ?case
  proof (cases "returned r1")
    case True
    with c s show ?thesis by simp
  next
    case False
    with s have "quiet (trace r1)" by (auto simp: settled_def)
    then have "settled (snd (Watch n w wd (g1, r1\<lparr>trace := trace r1 @ [Sleep (pollInterval w)],
                       cycles := Suc (cycles r1)\<rparr>)))"
      using False by (intro Suc.IH) (auto simp: quiet_append quiet_def)
    with c False show ?thesis by simp
  qed
qed



lemma dts_append:
  "delivered_then_set xs \<Longrightarrow> delivered_then_set ys \<Longrightarrow> delivered_then_set (xs @ ys)"
  by (induction xs rule: delivered_then_set.induct) auto

lemma baseline_append:
  "baseline_after t (xs @ ys) = baseline_after (baseline_after t xs) ys"
  by (induction t xs rule: baseline_after.induct) auto

lemma watch_cycle_trace:
  "watch_cycle wd roots (g, r) = (g', r') \<Longrightarrow>
   \<exists>new. trace r' = trace r @ new \<and> delivered_then_set new
        \<and> startTime g' = baseline_after (startTime g) new
        \<and> prefix (filter isScan new) (map Scan roots)
        \<and> (\<not> returned r' \<longrightarrow> filter isScan new = map Scan roots)
        \<and> length (filter isEvent new) \<le> length (filter isScan new)
        \<and> (\<forall>t. SetStartTime t \<in> set new \<longrightarrow> t \<in> range (now wd))"
proof (induction roots arbitrary: g r)
  case Nil
  then show ?case by auto
next
  case (Cons root roots)
  show ?case
  proof (cases "scanner wd (scans r) root (startTime g)")
    case (Inl err)
    with Cons.prems show ?thesis by auto
  next
    case (Inr p)
    show ?thesis
    proof (cases "p = []")
      case True
      let ?r = "r\<lparr>trace := trace r @ [Scan root], scans := Suc (scans r)\<rparr>"
      from Cons.prems Inr True have "watch_cycle wd roots (g, ?r) = (g', r')" by simp
      from Cons.IH[OF this] obtain new where
        n: "trace r' = trace ?r @ new" "delivered_then_set new"
          "startTime g' = baseline_after (startTime g) new"
          "prefix (filter isScan new) (map Scan roots)"
          "\<not> returned r' \<longrightarrow> filter isScan new = map Scan roots"
          "length (filter isEvent new) \<le> length (filter isScan new)"
          "\<forall>t. SetStartTime t \<in> set new \<longrightarrow> t \<in> range (now wd)"
        by auto
      show ?thesis
        by (rule exI[of _ "Scan root # new"]) (use n in simp)
    next
      case False
      let ?g = "g\<lparr>startTime := now wd (scans r)\<rparr>"
      let ?r = "r\<lparr>trace := trace r @ [Scan root, SendEvent p, SetStartTime (now wd (scans r))],
                   scans := Suc (scans r)\<rparr>"
      from Cons.prems Inr False have "watch_cycle wd roots (?g, ?r) = (g', r')" by simp
      from Cons.IH[OF this] obtain new where
        n: "trace r' = trace ?r @ new" "delivered_then_set new"
          "startTime g' = baseline_after (startTime ?g) new"
          "prefix (filter isScan new) (map Scan roots)"
          "\<not> returned r' \<longrightarrow> filter isScan new = map Scan roots"
          "length (filter isEvent new) \<le> length (filter isScan new)"
          "\<forall>t. SetStartTime t \<in> set new \<longrightarrow> t \<in> range (now wd)"
        by auto
      show ?thesis
        by (rule exI[of _ "Scan root # SendEvent p # SetStartTime (now wd (scans r)) # new"])
           (use n in simp)
    qed
  qed
qed


lemma Watch_trace:
  "Watch n w wd (g, r) = (g', r') \<Longrightarrow>
   \<exists>new. trace r' = trace r @ new \<and> delivered_then_set new
        \<and> startTime g' = baseline_after (startTime g) new
        \<and> (\<forall>t. SetStartTime t \<in> set new \<longrightarrow> t \<in> range (now wd))"
proof (induction n arbitrary: g r)
  case 0
  then show ?case by auto
next
  case (Suc n)
  obtain g1 r1 where c: "watch_cycle wd (order wd (cycles r)) (g, r) = (g1, r1)"
    by fastforce
  from watch_cycle_trace[OF c] obtain new1 where
    n1: "trace r1 = trace r @ new1" "delivered_then_set new1"
        "startTime g1 = baseline_after (startTime g) new1"
        "\<forall>t. SetStartTime t \<in> set new1 \<longrightarrow> t \<in> range (now wd)"
    by blast
  show ?case
  proof (cases "returned r1")
    case True
    with c Suc.prems n1 show ?thesis by auto
  next
    case False
    let ?r = "r1\<lparr>trace := trace r1 @ [Sleep (pollInterval w)], cycles := Suc (cycles r1)\<rparr>"
    have "Watch n w wd (g1, ?r) = (g', r')"
      using Suc.prems(1) c False by simp
    from Suc.IH[OF this] obtain new2 where
      n2: "trace r' = trace ?r @ new2" "delivered_then_set new2"
          "startTime g' = baseline_after (startTime g1) new2"
          "\<forall>t. SetStartTime t \<in> set new2 \<longrightarrow> t \<in> range (now wd)"
      by blast
    have d: "delivered_then_set (new1 @ Sleep (pollInterval w) # new2)"
      using n1(2) n2(2) by (intro dts_append) auto
    show ?thesis
      by (rule exI[of _ "new1 @ Sleep (pollInterval w) # new2"])
         (use n1 n2 d in \<open>auto simp: baseline_append\<close>)
  qed
qed



lemma response_quiet_iff:
  "quiet (response wd n t root) \<longleftrightarrow> \<not> isl (scanner wd n root t)"
  by (auto simp: response_def quiet_def split: sum.splits)

lemma response_scans: "scans_in (response wd n t root) = 0"
  by (auto simp: response_def scans_in_def split: sum.splits)

lemma scans_in_append: "scans_in (xs @ ys) = scans_in xs + scans_in ys"
  by (simp add: scans_in_def)

lemma cycle_trace_idle: "idle (cycle_trace wd n t roots)"
  by (cases roots) auto

lemma watch_cycle_is_cycle_trace:
  "watch_cycle wd roots (g, r) = (g', r') \<Longrightarrow>
   trace r' = trace r @ cycle_trace wd (scans r) (startTime g) roots
   \<and> startTime g' = baseline_after (startTime g) (cycle_trace wd (scans r) (startTime g) roots)
   \<and> (returned r' \<longleftrightarrow> returned r \<or> \<not> quiet (cycle_trace wd (scans r) (startTime g) roots))
   \<and> (quiet (cycle_trace wd (scans r) (startTime g) roots) \<longrightarrow>
        scans r' = scans r + scans_in (cycle_trace wd (scans r) (startTime g) roots))
   \<and> cycles r' = cycles r"
proof (induction roots arbitrary: g r)
  case Nil
  then show ?case by (auto simp: quiet_def scans_in_def)
next
  case (Cons root roots)
  show ?case
  proof (cases "scanner wd (scans r) root (startTime g)")
    case (Inl err)
    with Cons.prems show ?thesis
      by (auto simp: response_def quiet_def scans_in_def)
  next
    case (Inr p)
    show ?thesis
    proof (cases "p = []")
      case True
      let ?r = "r\<lparr>trace := trace r @ [Scan root], scans := Suc (scans r)\<rparr>"
      from Cons.prems Inr True have "watch_cycle wd roots (g, ?r) = (g', r')" by simp
      from Cons.IH[OF this] Inr True show ?thesis
        by (simp add: response_def quiet_def scans_in_def)
    next
      case False
      let ?g = "g\<lparr>startTime := now wd (scans r)\<rparr>"
      let ?r = "r\<lparr>trace := trace r @ [Scan root, SendEvent p, SetStartTime (now wd (scans r))],
                   scans := Suc (scans r)\<rparr>"
      from Cons.prems Inr False have "watch_cycle wd roots (?g, ?r) = (g', r')" by simp
      from Cons.IH[OF this] Inr False show ?thesis
        by (simp add: response_def quiet_def scans_in_def)
    qed
  qed
qed

lemma idle_append: "idle xs \<Longrightarrow> idle ys \<Longrightarrow> idle (xs @ ys)"
  by (cases xs rule: idle.cases) auto

lemma answered_segment:
  "answered wd n t (Scan root # response wd n t root)"
  unfolding answered_def
proof (intro allI impI)
  fix pre root' post
  assume a: "Scan root # response wd n t root = pre @ Scan root' # post"
  have ns: "\<And>x. x \<in> set (response wd n t root) \<Longrightarrow> \<not> isScan x"
    by (auto simp: response_def split: sum.splits if_splits)
  have "pre = []"
  proof (cases pre)
    case Nil
    then show ?thesis .
  next
    case (Cons a pre')
    with a have "response wd n t root = pre' @ Scan root' # post" by simp
    then have "Scan root' \<in> set (response wd n t root)" by simp
    with ns show ?thesis by fastforce
  qed
  with a have e: "root' = root" "post = response wd n t root" by auto
  show "quiet pre \<and>
        (\<exists>rest. post = response wd (n + scans_in pre) (baseline_after t pre) root' @ rest
                \<and> idle rest
                \<and> (isl (scanner wd (n + scans_in pre) root' (baseline_after t pre))
                     \<longrightarrow> rest = []))"
    using \<open>pre = []\<close> e by (simp add: quiet_def scans_in_def)
qed

lemma answered_append:
  assumes x: "answered wd n t xs" and q: "quiet xs"
    and y: "answered wd (n + scans_in xs) (baseline_after t xs) ys" and i: "idle ys"
  shows "answered wd n t (xs @ ys)"
  unfolding answered_def
proof (intro allI impI)
  fix pre root post
  assume a: "xs @ ys = pre @ Scan root # post"
  let ?k = "n + scans_in pre" and ?u = "baseline_after t pre"
  from a obtain vs where
    "(xs = pre @ vs \<and> vs @ ys = Scan root # post) \<or> (xs @ vs = pre \<and> ys = vs @ Scan root # post)"
    by (auto simp: append_eq_append_conv2)
  then consider
    (left) us where "xs = pre @ us" "us @ ys = Scan root # post" "us \<noteq> []"
  | (right) us where "xs @ us = pre" "ys = us @ Scan root # post"
    by (cases "vs = []") auto
  then show "quiet pre \<and>
        (\<exists>rest. post = response wd ?k ?u root @ rest \<and> idle rest
                \<and> (isl (scanner wd ?k root ?u) \<longrightarrow> rest = []))"
  proof cases
    case left
    then obtain post1 where p1: "us = Scan root # post1" "post = post1 @ ys"
      by (cases us) auto
    with left have xs: "xs = pre @ Scan root # post1" by simp
    from x[unfolded answered_def, rule_format, OF xs] obtain rest where
      r: "quiet pre" "post1 = response wd ?k ?u root @ rest" "idle rest"
         "isl (scanner wd ?k root ?u) \<longrightarrow> rest = []"
      by blast
    from q xs r(2) have "quiet (response wd ?k ?u root)"
      by (simp add: quiet_append quiet_def)
    then have ni: "\<not> isl (scanner wd ?k root ?u)" by (simp add: response_quiet_iff)
    have "idle (rest @ ys)" using r(3) i by (rule idle_append)
    with r p1 ni show ?thesis by auto
  next
    case right
    from y[unfolded answered_def, rule_format, OF right(2)] obtain rest where
      r: "quiet us"
         "post = response wd (n + scans_in xs + scans_in us)
                   (baseline_after (baseline_after t xs) us) root @ rest"
         "idle rest"
         "isl (scanner wd (n + scans_in xs + scans_in us) root
                   (baseline_after (baseline_after t xs) us)) \<longrightarrow> rest = []"
      by blast
    have "scans_in pre = scans_in xs + scans_in us" "baseline_after t pre = baseline_after (baseline_after t xs) us"
      using right(1) by (auto simp: scans_in_append baseline_append)
    with r q right(1) show ?thesis by (auto simp: quiet_append add.assoc)
  qed
qed


lemma answered_Nil: "answered wd n t []"
  by (simp add: answered_def)

lemma answered_Sleep:
  assumes "answered wd n t as"
  shows "answered wd n t (Sleep d # as)"
  unfolding answered_def
proof (intro allI impI)
  fix pre root post
  assume a: "Sleep d # as = pre @ Scan root # post"
  then obtain pre' where p: "pre = Sleep d # pre'" "as = pre' @ Scan root # post"
    by (cases pre) auto
  from assms[unfolded answered_def, rule_format, OF p(2)] p(1)
  show "quiet pre \<and>
        (\<exists>rest. post = response wd (n + scans_in pre) (baseline_after t pre) root @ rest
                \<and> idle rest
                \<and> (isl (scanner wd (n + scans_in pre) root (baseline_after t pre))
                     \<longrightarrow> rest = []))"
    by (simp add: quiet_def scans_in_def)
qed

lemma cycle_trace_answered: "answered wd n t (cycle_trace wd n t roots)"
proof (induction roots arbitrary: n t)
  case Nil
  show ?case by (simp add: answered_Nil)
next
  case (Cons root roots)
  show ?case
  proof (cases "isl (scanner wd n root t)")
    case True
    then show ?thesis using answered_segment[of wd n t root] by simp
  next
    case False
    let ?xs = "Scan root # response wd n t root"
    have q: "quiet ?xs"
      using False response_quiet_iff[of wd n t root] by (simp add: quiet_def)
    have s: "scans_in ?xs = 1"
      using response_scans[of wd n t root] by (simp add: scans_in_def)
    have "answered wd n t (?xs @ cycle_trace wd (Suc n) (baseline_after t (response wd n t root)) roots)"
      by (rule answered_append[OF answered_segment q _ cycle_trace_idle])
         (simp add: s Cons.IH)
    with False show ?thesis by simp
  qed
qed

lemma Watch_answered:
  "Watch k w wd (g, r) = (g', r') \<Longrightarrow>
   \<exists>new. trace r' = trace r @ new \<and> answered wd (scans r) (startTime g) new \<and> idle new
        \<and> (returned r' \<longleftrightarrow> returned r \<or> \<not> quiet new)"
proof (induction k arbitrary: g r)
  case 0
  then show ?case by (auto simp: answered_Nil quiet_def)
next
  case (Suc k)
  let ?ct = "cycle_trace wd (scans r) (startTime g) (order wd (cycles r))"
  obtain g1 r1 where c: "watch_cycle wd (order wd (cycles r)) (g, r) = (g1, r1)"
    by fastforce
  from watch_cycle_is_cycle_trace[OF c] have
    f: "trace r1 = trace r @ ?ct" "startTime g1 = baseline_after (startTime g) ?ct"
       "returned r1 \<longleftrightarrow> returned r \<or> \<not> quiet ?ct"
       "quiet ?ct \<longrightarrow> scans r1 = scans r + scans_in ?ct"
    by blast+
  show ?case
  proof (cases "returned r1")
    case True
    with c Suc.prems have "g' = g1" "r' = r1" by auto
    with f True show ?thesis
      using cycle_trace_answered[of wd "scans r" "startTime g"] cycle_trace_idle[of wd]
      by auto
  next
    case False
    let ?r = "r1\<lparr>trace := trace r1 @ [Sleep (pollInterval w)], cycles := Suc (cycles r1)\<rparr>"
    from False f(3) have q: "quiet ?ct" and nr: "\<not> returned r" by auto
    have "Watch k w wd (g1, ?r) = (g', r')"
      using Suc.prems c False by simp
    from Suc.IH[OF this] obtain new2 where
      n2: "trace r' = trace ?r @ new2" "answered wd (scans ?r) (startTime g1) new2" "idle new2"
          "returned r' \<longleftrightarrow> returned ?r \<or> \<not> quiet new2"
      by blast
    have a2: "answered wd (scans r + scans_in ?ct) (baseline_after (startTime g) ?ct)
                (Sleep (pollInterval w) # new2)"
      using n2(2) f(2,4) q by (intro answered_Sleep) simp
    have a: "answered wd (scans r) (startTime g) (?ct @ Sleep (pollInterval w) # new2)"
      by (rule answered_append[OF cycle_trace_answered q a2]) simp
    have i: "idle (?ct @ Sleep (pollInterval w) # new2)"
      by (rule idle_append[OF cycle_trace_idle]) simp
    show ?thesis
      by (rule exI[of _ "?ct @ Sleep (pollInterval w) # new2"])
         (use n2 f a i q nr False in \<open>auto simp: quiet_append quiet_def\<close>)
  qed
qed

lemmas example_defs = start_def walking_def ex_roots_def scanChange_def scanWalk_def Walk_def walkFn_def
  isHidden_def Base_def Ext_def isSep_def skipFile_def Let_def


lemma sent_error_is_scanner_error:
  assumes run: "Watch n w wd (g, start) = (g', r')" and m: "SendError e \<in> set (trace r')"
  shows "returned r'
         \<and> (\<exists>pre root. trace r' = pre @ [Scan root, SendError e]
               \<and> (\<forall>a\<in>set pre. \<not> isError a)
               \<and> scanner wd (length (filter isScan pre)) root
                    (baseline_after (startTime g) pre) = Inl e)"
proof -
  from Watch_answered[OF run] have an: "answered wd 0 (startTime g) (trace r')"
    by (auto simp: start_def)
  have "settled (snd (Watch n w wd (g, start)))"
    by (rule Watch_settled) (simp_all add: start_def quiet_def)
  then have st: "settled r'" using run by simp
  have "isError (SendError e)" by simp
  with m have nq: "\<not> quiet (trace r')" unfolding quiet_def by blast
  with st obtain pre root err where
    p: "returned r'" "trace r' = pre @ [Scan root, SendError err]" "quiet pre"
    by (auto simp: settled_def)
  have "err = e" using m p(2,3) by (auto simp: quiet_def)
  with p have d: "trace r' = pre @ Scan root # [SendError e]" by simp
  from an[unfolded answered_def, rule_format, OF d] obtain rest where
    r: "[SendError e] = response wd (scans_in pre) (baseline_after (startTime g) pre) root @ rest"
       "idle rest"
    by auto
  have "scanner wd (scans_in pre) root (baseline_after (startTime g) pre) = Inl e"
  proof (cases "scanner wd (scans_in pre) root (baseline_after (startTime g) pre)")
    case (Inl x)
    with r(1) show ?thesis by (simp add: response_def)
  next
    case (Inr x)
    with r show ?thesis by (cases "x = []") (auto simp: response_def)
  qed
  with p d show ?thesis by (auto simp: quiet_def scans_in_def)
qed

text \<open>
  With the scanner of this package, on trees whose entries can all be stat'ed, a run sends
  no error and \<^verbatim>\<open>Watch\<close> does not return.
\<close>

lemma walking_run_sends_no_error:
  assumes "scanner wd = walking w0 tree" and run: "Watch n w wd (g, start) = (g', r')"
  shows "(\<forall>a\<in>set (trace r'). \<not> isError a) \<and> \<not> returned r'"
proof -
  have ne: "SendError e \<notin> set (trace r')" for e
  proof
    assume "SendError e \<in> set (trace r')"
    from sent_error_is_scanner_error[OF run this] obtain pre root where
      "scanner wd (length (filter isScan pre)) root (baseline_after (startTime g) pre) = Inl e"
      by blast
    with assms(1) have "scanChange w0 (baseline_after (startTime g) pre)
                          (tree (length (filter isScan pre)) root) = Inl e"
      by (simp add: walking_def)
    then show False by (simp add: scanChange_char)
  qed
  have q: "\<not> isError a" if "a \<in> set (trace r')" for a
  proof
    assume "isError a"
    then obtain e where "a = SendError e" by (cases a) auto
    with that ne show False by blast
  qed
  from Watch_answered[OF run] have "returned r' \<longleftrightarrow> \<not> quiet (trace r')"
    by (auto simp: start_def)
  with q show ?thesis by (auto simp: quiet_def)
qed




text \<open>
  Claim C2 fails as stated: the loop has no \<^verbatim>\<open>break\<close> after a delivery. In one cycle
  over \<open>/a\<close> and \<open>/b\<close>, after the change under \<open>/a\<close> is delivered the loop scans \<open>/b\<close> and
  delivers a second change.
\<close>

theorem cycle_emits_two_events:
  "trace (snd (watch_cycle ex_world (order ex_world 0) (\<lparr>startTime = 1\<rparr>, start)))
   = [Scan ''/a'', SendEvent ''/a/x.go'', SetStartTime 6,
      Scan ''/b'', SendEvent ''/b/y.go'', SetStartTime 10]"
  by (simp add: ex_world_def ex_both_def example_defs)


text \<open>
  Claim C2, amended. A cycle scans the roots one after another in the order of the
  cycle, each at most once, and all of them unless a scan fails. When the scanner reports
  a changed path for a root, the loop delivers it and assigns the clock to the baseline
  straight after that scan, then goes on with the remaining roots of the same cycle under
  the new baseline: the trace of the cycle is exactly \<open>cycle_trace\<close>. So a cycle emits at
  most one change notification for each root it scans.
\<close>

theorem cycle_scans_every_root:
  assumes "watch_cycle wd roots (g, r) = (g', r')"
  shows "\<exists>new. trace r' = trace r @ new
        \<and> new = cycle_trace wd (scans r) (startTime g) roots
        \<and> prefix (filter isScan new) (map Scan roots)
        \<and> (\<not> returned r' \<longrightarrow> filter isScan new = map Scan roots)
        \<and> length (filter isEvent new) \<le> length (filter isScan new)
        \<and> (\<forall>pre root post p.
              new = pre @ Scan root # post
              \<and> scanner wd (scans r + length (filter isScan pre)) root
                   (baseline_after (startTime g) pre) = Inr p
              \<and> p \<noteq> []
              \<longrightarrow> (\<exists>rest. post = SendEvent p
                              # SetStartTime (now wd (scans r + length (filter isScan pre)))
                              # rest
                         \<and> idle rest))"
proof -
  let ?ct = "cycle_trace wd (scans r) (startTime g) roots"
  from watch_cycle_is_cycle_trace[OF assms] have t: "trace r' = trace r @ ?ct" by blast
  from watch_cycle_trace[OF assms] obtain new where
    n: "trace r' = trace r @ new"
       "prefix (filter isScan new) (map Scan roots)"
       "\<not> returned r' \<longrightarrow> filter isScan new = map Scan roots"
       "length (filter isEvent new) \<le> length (filter isScan new)"
    by blast
  from t n(1) have e: "new = ?ct" by simp
  have d: "\<exists>rest. post = SendEvent p
                              # SetStartTime (now wd (scans r + length (filter isScan pre)))
                              # rest
                         \<and> idle rest"
    if "?ct = pre @ Scan root # post"
       "scanner wd (scans r + length (filter isScan pre)) root
                   (baseline_after (startTime g) pre) = Inr p" "p \<noteq> []"
    for pre root post p
    using cycle_trace_answered[of wd "scans r" "startTime g" roots,
            unfolded answered_def, rule_format, OF that(1)] that(2,3)
    by (auto simp: scans_in_def response_def)
  from t n e d show ?thesis by blast
qed


theorem cycle_scans_every_root_witness:
  "trace (snd (watch_cycle ex_world [''/a'', ''/b''] (\<lparr>startTime = 1\<rparr>, start)))
     = cycle_trace ex_world 0 1 [''/a'', ''/b'']
   \<and> cycle_trace ex_world 0 1 [''/a'', ''/b'']
     = [Scan ''/a'', SendEvent ''/a/x.go'', SetStartTime 6,
        Scan ''/b'', SendEvent ''/b/y.go'', SetStartTime 10]
   \<and> filter isScan (trace (snd (watch_cycle ex_world [''/a'', ''/b''] (\<lparr>startTime = 1\<rparr>, start))))
     = [Scan ''/a'', Scan ''/b'']
   \<and> length (filter isEvent
        (trace (snd (watch_cycle ex_world [''/a'', ''/b''] (\<lparr>startTime = 1\<rparr>, start))))) \<le> 2"
proof -
  let ?c = "watch_cycle ex_world [''/a'', ''/b''] (\<lparr>startTime = 1\<rparr>, start)"
  have nr: "\<not> returned (snd ?c)"
    by (simp add: ex_world_def ex_both_def example_defs)
  have v: "cycle_trace ex_world 0 1 [''/a'', ''/b'']
           = [Scan ''/a'', SendEvent ''/a/x.go'', SetStartTime 6,
              Scan ''/b'', SendEvent ''/b/y.go'', SetStartTime 10]"
    by (simp add: response_def ex_world_def ex_both_def example_defs)
  from cycle_scans_every_root[of ex_world "[''/a'', ''/b'']" "\<lparr>startTime = 1\<rparr>" start
         "fst ?c" "snd ?c"]
  obtain new where
    n: "trace (snd ?c) = trace start @ new"
       "new = cycle_trace ex_world (scans start) (startTime \<lparr>startTime = 1\<rparr>) [''/a'', ''/b'']"
       "\<not> returned (snd ?c) \<longrightarrow> filter isScan new = map Scan [''/a'', ''/b'']"
       "length (filter isEvent new) \<le> length (filter isScan new)"
    by auto
  from n(1) have t: "trace (snd ?c) = new" by (simp add: start_def)
  from n(2) have c: "new = cycle_trace ex_world 0 1 [''/a'', ''/b'']" by (simp add: start_def)
  from n(3) nr have s: "filter isScan new = [Scan ''/a'', Scan ''/b'']" by simp
  with n(4) have "length (filter isEvent new) \<le> 2" by simp
  with s t c v show ?thesis by simp
qed

text \<open>
  Claim C3 fails as stated: the baseline is the package variable \<^verbatim>\<open>startTime\<close>, which
  \<^verbatim>\<open>NewWatcher\<close> neither creates nor sets. A watcher of \<open>/b\<close> alone reports \<open>/b/y.go\<close>,
  written at 7; after a cycle of another watcher, of \<open>/a\<close>, that has delivered a change
  and set the baseline to 10, the same watcher of \<open>/b\<close> reports nothing.
\<close>

theorem watchers_share_baseline:
  "trace (snd (Watch 1 ex_second ex_world_second (\<lparr>startTime = 1\<rparr>, start)))
     = [Scan ''/b'', SendEvent ''/b/y.go'', SetStartTime 10, Sleep 500]
   \<and> fst (Watch 1 ex_first ex_world_first (\<lparr>startTime = 1\<rparr>, start)) = \<lparr>startTime = 10\<rparr>
   \<and> trace (snd (Watch 1 ex_second ex_world_second
        (fst (Watch 1 ex_first ex_world_first (\<lparr>startTime = 1\<rparr>, start)), start)))
     = [Scan ''/b'', Sleep 500]"
  by (simp add: ex_world_first_def ex_world_second_def ex_first_def ex_second_def ex_both_def example_defs)


text \<open>
  Claim C3, amended. The baseline is one variable of the process, which every run of
  every watcher reads and writes. In a run of \<^verbatim>\<open>Watch\<close> it is assigned straight after each
  change delivered and at no other moment, each time a value read from the clock, and its
  value after the run is the one these assignments leave.
\<close>

theorem baseline_set_on_delivery:
  assumes "Watch n w wd (g, r) = (g', r')"
  shows "\<exists>new. trace r' = trace r @ new \<and> delivered_then_set new
        \<and> startTime g' = baseline_after (startTime g) new
        \<and> (\<forall>t. SetStartTime t \<in> set new \<longrightarrow> t \<in> range (now wd))"
  using Watch_trace[OF assms] .


theorem baseline_set_on_delivery_witness:
  "delivered_then_set (trace (snd (Watch 2 ex_both ex_world (\<lparr>startTime = 1\<rparr>, start))))
   \<and> startTime (fst (Watch 2 ex_both ex_world (\<lparr>startTime = 1\<rparr>, start)))
     = baseline_after 1 (trace (snd (Watch 2 ex_both ex_world (\<lparr>startTime = 1\<rparr>, start))))
   \<and> startTime (fst (Watch 2 ex_both ex_world (\<lparr>startTime = 1\<rparr>, start))) = 10"
proof -
  let ?c = "Watch 2 ex_both ex_world (\<lparr>startTime = 1\<rparr>, start)"
  from baseline_set_on_delivery[of 2 ex_both ex_world "\<lparr>startTime = 1\<rparr>" start "fst ?c" "snd ?c"]
  obtain new where
    n: "trace (snd ?c) = trace start @ new" "delivered_then_set new"
       "startTime (fst ?c) = baseline_after (startTime \<lparr>startTime = 1\<rparr>) new"
    by auto
  from n(1) have t: "trace (snd ?c) = new" by (simp add: start_def)
  have v: "startTime (fst ?c) = 10"
    by (simp add: numeral_2_eq_2 ex_world_def ex_both_def example_defs)
  from n t v show ?thesis by simp
qed


end
